theory Spec2Isabelle
  imports Complex_Main "HOL-Library.Word" "HOL-Library.Stream" "HOL-Library.Multiset"
    "HOL-Library.Signed_Division"
begin

unbundle bit_operations_syntax

section \<open>Data model\<close>

text \<open>
  Go's \<open>byte\<close> is an 8-bit word, \<open>uint64\<close> a 64-bit word. On the 64-bit
  platforms the tests are written for (\<open>TestInt64Overflow\<close> takes
  \<open>0x7fffffffffffffff\<close> as the largest \<open>int\<close>), \<open>uint\<close> and \<open>int\<close> are
  64 bits wide as well; an \<open>int\<close> is read through \<open>sint\<close> and compared with
  the signed orders, and the conversions \<open>uint64(n)\<close> and \<open>int(r)\<close> keep
  the bits.
\<close>

type_synonym byte = "8 word"
type_synonym uint = "64 word"
type_synonym uint64 = "64 word"
type_synonym go_int = "64 word"

text \<open>
  The entropy source is an \<open>io.Reader\<close>.  It is modelled by the sequence of
  outcomes of its successive byte deliveries: \<open>Some b\<close> when the next byte is
  \<open>b\<close>, \<open>None\<close> when the reader reports an error (end of input included) in
  place of a byte.  A finite buffer \<open>bs\<close>, as \<open>bytes.NewBuffer\<close> in the tests, is
  \<open>map Some bs @- sconst None\<close>.
\<close>

type_synonym reader = "byte option stream"

text \<open>
  A panic is a value.  \<open>InvalidArgument\<close> carries the message of a
  \<open>panic("...")\<close> on a bad argument, \<open>SourceError\<close> stands for \<open>panic(e)\<close> on
  the error \<open>e\<close> of a read, \<open>RuntimeError\<close> for the panics of the Go runtime
  (index or slice bounds out of range, \<open>make\<close> with a negative size).
  Every operation returns the reader it leaves behind next to its outcome.
\<close>

datatype panic = InvalidArgument string | SourceError | RuntimeError string

type_synonym 'a outcome = "(panic + 'a) \<times> reader"

text \<open>
  \<open>io.ReadFull(src, buf)\<close> of the Go library, for a buffer of \<open>k\<close> bytes: it
  takes \<open>k\<close> bytes from the reader, or stops at the first error.  With
  \<open>k = 0\<close> it returns at once and the reader is not consulted.
\<close>

fun ReadFull :: "reader \<Rightarrow> nat \<Rightarrow> byte list option \<times> reader" where
  "ReadFull src 0 = (Some [], src)"
| "ReadFull src (Suc k) =
     (case shd src of
        None \<Rightarrow> (None, stl src)
      | Some b \<Rightarrow>
          (case ReadFull (stl src) k of
             (None, src') \<Rightarrow> (None, src')
           | (Some bs, src') \<Rightarrow> (Some (b # bs), src')))"

subsection \<open>util.go\<close>

definition minBytes :: "uint64 \<Rightarrow> uint" where
  "minBytes n =
     (if n = 0 then 0
      else if n \<le> 0xff then 1
      else if n \<le> 0xffff then 2
      else if n \<le> 0xffffff then 3
      else if n \<le> 0xffffffff then 4
      else if n \<le> 0xffffffffff then 5
      else if n \<le> 0xffffffffffff then 6
      else if n \<le> 0xffffffffffffff then 7
      else 8)"

subsection \<open>The readers of random values\<close>

text \<open>
  The 8-byte buffer \<open>b\<close> read as a little endian value:
  \<open>uint64(b[0]) | uint64(b[1])<<8 | ... | uint64(b[7])<<56\<close>.
\<close>

definition le_uint64 :: "byte list \<Rightarrow> uint64" where
  "le_uint64 b =
     ucast (b ! 0) OR push_bit 8 (ucast (b ! 1)) OR push_bit 16 (ucast (b ! 2)) OR
     push_bit 24 (ucast (b ! 3)) OR push_bit 32 (ucast (b ! 4)) OR
     push_bit 40 (ucast (b ! 5)) OR push_bit 48 (ucast (b ! 6)) OR
     push_bit 56 (ucast (b ! 7))"

text \<open>
  \<open>ReadUint64Bits\<close>.  The buffer \<open>b\<close> is made of 8 zero bytes and its first
  \<open>bytes\<close> places are filled by \<open>io.ReadFull\<close>.  In \<open>(1 << n) - 1\<close> the
  constant \<open>1\<close> takes the type \<open>uint64\<close> of \<open>r\<close>; a Go shift by the width or
  more gives 0, as \<open>push_bit\<close> does on words.
\<close>

definition ReadUint64Bits :: "reader \<Rightarrow> uint \<Rightarrow> uint64 outcome" where
  "ReadUint64Bits src n =
     (if n > 64
      then (Inl (InvalidArgument ''abr.Uint64Bits can not return more than 64 random bits''), src)
      else
        let bytes = (n + 7) div 8 in
        case ReadFull src (unat bytes) of
          (None, src') \<Rightarrow> (Inl SourceError, src')
        | (Some bs, src') \<Rightarrow>
            let b = bs @ replicate (8 - length bs) 0;
                r = le_uint64 b
            in (Inr (r AND (push_bit (unat n) 1 - 1)), src'))"

text \<open>
  The rejection loop of \<open>ReadIntn\<close>: \<open>for { r := ReadUint64Bits(src, bits);
  if r < limit { return int(r % N) } }\<close>.  It has no bound, so the model is a
  partial function: \<open>None\<close> says that the loop never returns.
\<close>

partial_function (option) ReadIntn_loop ::
    "reader \<Rightarrow> uint \<Rightarrow> uint64 \<Rightarrow> uint64 \<Rightarrow> go_int outcome option" where
  "ReadIntn_loop src bits limit N =
     (case ReadUint64Bits src bits of
        (Inl p, src') \<Rightarrow> Some (Inl p, src')
      | (Inr r, src') \<Rightarrow>
          if r < limit then Some (Inr (r mod N), src')
          else ReadIntn_loop src' bits limit N)"

definition ReadIntn :: "reader \<Rightarrow> go_int \<Rightarrow> go_int outcome option" where
  "ReadIntn src n =
     (if n \<le>s 0 then Some (Inl (InvalidArgument ''invalid argument to Intn''), src)
      else
        let N = n;
            bits = minBytes (N - 1) * 8
        in
          if N AND (N - 1) = 0
          then
            (case ReadUint64Bits src bits of
               (Inl p, src') \<Rightarrow> Some (Inl p, src')
             | (Inr r, src') \<Rightarrow> Some (Inr (r AND (N - 1)), src'))
          else
            let M = push_bit (unat bits) 1;
                limit = M - (M - N) mod N
            in ReadIntn_loop src bits limit N)"

subsection \<open>Permutations and samples\<close>

text \<open>
  Division of two \<open>int\<close>s truncates towards zero.
\<close>

definition go_div :: "go_int \<Rightarrow> go_int \<Rightarrow> go_int" where
  "go_div a b = word_of_int (sint a sdiv sint b)"

text \<open>
  Indexing a slice of length \<open>length m\<close> at \<open>i\<close> panics unless
  \<open>0 \<le> i < len(m)\<close>.
\<close>

definition in_bounds :: "go_int \<Rightarrow> 'a list \<Rightarrow> bool" where
  "in_bounds i m \<longleftrightarrow> 0 \<le>s i \<and> sint i < int (length m)"

definition idx :: "go_int \<Rightarrow> nat" where
  "idx i = nat (sint i)"

text \<open>
  The loop of \<open>ReadPerm\<close>, from the counter \<open>i\<close> on:
  \<open>for ; i < n; i++ { j := ReadIntn(src, i+1); m[i] = m[j]; m[j] = i }\<close>.
  The index expressions are checked as Go checks them.
\<close>

function ReadPerm_loop ::
    "reader \<Rightarrow> go_int \<Rightarrow> go_int \<Rightarrow> go_int list \<Rightarrow> go_int list outcome option" where
  "ReadPerm_loop src n i m =
     (if i <s n then
        (case ReadIntn src (i + 1) of
           None \<Rightarrow> None
         | Some (Inl p, src') \<Rightarrow> Some (Inl p, src')
         | Some (Inr j, src') \<Rightarrow>
             if in_bounds j m \<and> in_bounds i m
             then ReadPerm_loop src' n (i + 1) ((m[idx i := m ! idx j])[idx j := i])
             else Some (Inl (RuntimeError ''index out of range''), src'))
      else Some (Inr m, src))"
  by pat_completeness auto
termination
proof (relation "measure (\<lambda>(src, n, i, m). nat (sint n - sint i))")
  show "wf (measure (\<lambda>(src, n, i, m). nat (sint n - sint i)))"
    by simp
next
  fix src :: reader and n i :: go_int and m :: "go_int list"
    and x2 :: "go_int outcome" and x1 :: "panic + go_int" and x2a :: reader and b :: go_int
  assume "i <s n"
  then have lt: "sint i < sint n"
    by (simp add: word_sless_alt)
  have "sint n < 2 ^ 63" "- (2 ^ 63) \<le> sint i"
    using sint_lt [of n] sint_ge [of i] by simp_all
  with lt have "sint (i + 1) = sint i + 1"
    by (simp add: sint_word_ariths signed_take_bit_int_eq_self)
  with lt show "((x2a, n, i + 1, (m[idx i := m ! idx b])[idx b := i]), (src, n, i, m))
      \<in> measure (\<lambda>(src, n, i, m). nat (sint n - sint i))"
    by simp
qed

text \<open>
  \<open>make([]int, n)\<close> is a slice of \<open>n\<close> zeros, and panics for a negative
  \<open>n\<close>.  Limits of memory are not modelled.
\<close>

definition ReadPerm :: "reader \<Rightarrow> go_int \<Rightarrow> go_int list outcome option" where
  "ReadPerm src n =
     (if n <s 0 then Some (Inl (RuntimeError ''makeslice: len out of range''), src)
      else ReadPerm_loop src n 0 (replicate (nat (sint n)) 0))"

text \<open>
  The loop of the sparse case of \<open>ReadSample\<close>,
  \<open>for len(sample) < k { ... }\<close>; \<open>cache\<close> is the set of keys of the map.
  The loop has no bound either.
\<close>

partial_function (option) ReadSample_loop ::
    "reader \<Rightarrow> go_int \<Rightarrow> go_int \<Rightarrow> go_int list \<Rightarrow> go_int set \<Rightarrow> go_int list outcome option" where
  "ReadSample_loop src n k sample cache =
     (if int (length sample) < sint k then
        (case ReadIntn src n of
           None \<Rightarrow> None
         | Some (Inl p, src') \<Rightarrow> Some (Inl p, src')
         | Some (Inr r, src') \<Rightarrow>
             if r \<in> cache then ReadSample_loop src' n k sample cache
             else ReadSample_loop src' n k (sample @ [r]) (insert r cache))
      else Some (Inr sample, src))"

text \<open>
  \<open>ReadSample\<close>: \<open>k0\<close> is the argument \<open>k\<close>, \<open>k\<close> its value after
  \<open>if k > n { k = n }\<close>.  The slice expression \<open>[0:k]\<close> panics unless
  \<open>0 \<le> k \<le> cap\<close>, and \<open>make([]int, 0, k)\<close> panics for a negative \<open>k\<close>.
\<close>

definition ReadSample :: "reader \<Rightarrow> go_int \<Rightarrow> go_int \<Rightarrow> go_int list outcome option" where
  "ReadSample src n k0 =
     (let k = (if n <s k0 then n else k0) in
      if go_div n 2 <s k then
        (case ReadPerm src n of
           None \<Rightarrow> None
         | Some (Inl p, src') \<Rightarrow> Some (Inl p, src')
         | Some (Inr m, src') \<Rightarrow>
             if 0 \<le>s k \<and> sint k \<le> int (length m)
             then Some (Inr (take (nat (sint k)) m), src')
             else Some (Inl (RuntimeError ''slice bounds out of range''), src'))
      else if k <s 0 then Some (Inl (RuntimeError ''makeslice: cap out of range''), src)
      else ReadSample_loop src n k [] {})"

text \<open>
  The number of binary digits of a number, as the specification uses it
  (\<open>bitlength(n)\<close>, 0 for 0); it is not part of the code.
\<close>

fun bitlength :: "nat \<Rightarrow> nat" where
  "bitlength n = (if n = 0 then 0 else Suc (bitlength (n div 2)))"

declare bitlength.simps [simp del]

subsection \<open>Floating point\<close>

text \<open>
  A finite, non-negative \<open>float64\<close> is modelled by the rational number it
  denotes.  The format has 53 significant bits and the least exponent
  \<open>-1074\<close>: its values are the \<open>m * 2 ^ e\<close> with \<open>m < 2 ^ 53\<close> and
  \<open>-1074 \<le> e \<le> 971\<close>.  Conversion of an integer and division give the exact
  result rounded to the nearest value of the format, ties to the even
  significand (IEEE 754, which Go follows).

  \<open>ulp_exp k e x\<close> looks for the exponent of the last place of \<open>x\<close> from
  \<open>e\<close> upwards, over at most \<open>k\<close> exponents: the least one with
  \<open>x < 2 ^ (e + 53)\<close>.  \<open>round_float64\<close> covers \<open>0 \<le> x < 2 ^ 1024\<close>;
  infinities, NaN and negative numbers do not arise in \<open>ReadFloat64\<close>, whose
  operands are an unsigned integer and the constant \<open>1 << 53\<close>.
\<close>

type_synonym float64 = rat

fun ulp_exp :: "nat \<Rightarrow> int \<Rightarrow> rat \<Rightarrow> int" where
  "ulp_exp 0 e x = e"
| "ulp_exp (Suc k) e x = (if x < 2 powi (e + 53) then e else ulp_exp k (e + 1) x)"

definition round_half_even :: "rat \<Rightarrow> int" where
  "round_half_even y =
     (let f = \<lfloor>y\<rfloor>; d = y - of_int f
      in if d < 1 / 2 then f else if 1 / 2 < d then f + 1
         else if even f then f else f + 1)"

definition round_float64 :: "rat \<Rightarrow> float64" where
  "round_float64 x =
     (let e = ulp_exp 2045 (- 1074) x
      in of_int (round_half_even (x / 2 powi e)) * 2 powi e)"

definition float64_of_uint64 :: "uint64 \<Rightarrow> float64" where
  "float64_of_uint64 r = round_float64 (of_nat (unat r))"

definition float64_div :: "float64 \<Rightarrow> float64 \<Rightarrow> float64" where
  "float64_div x y = round_float64 (x / y)"

text \<open>
  \<open>ReadFloat64\<close>: \<open>float64(ReadUint64Bits(src, 53)) / float64(1<<53)\<close>.
\<close>

definition ReadFloat64 :: "reader \<Rightarrow> float64 outcome" where
  "ReadFloat64 src =
     (case ReadUint64Bits src 53 of
        (Inl p, src') \<Rightarrow> (Inl p, src')
      | (Inr r, src') \<Rightarrow>
          (Inr (float64_div (float64_of_uint64 r) (round_float64 (2 ^ 53))), src'))"

section \<open>Properties\<close>

subsection \<open>The least number of bytes\<close>

lemma bitlength_le_iff: "bitlength n \<le> k \<longleftrightarrow> n < 2 ^ k"
proof (induction n arbitrary: k rule: bitlength.induct)
  case (1 n)
  show ?case
  proof (cases "n = 0")
    case True
    then show ?thesis by (simp add: bitlength.simps)
  next
    case False
    show ?thesis
    proof (cases k)
      case 0
      with False show ?thesis by (simp add: bitlength.simps)
    next
      case (Suc k')
      have "bitlength n \<le> Suc k' \<longleftrightarrow> bitlength (n div 2) \<le> k'"
        using False by (simp add: bitlength.simps [of n])
      also have "\<dots> \<longleftrightarrow> n div 2 < 2 ^ k'"
        using "1.IH" [OF False] .
      also have "\<dots> \<longleftrightarrow> n < 2 ^ Suc k'"
        by auto
      finally show ?thesis using Suc by simp
    qed
  qed
qed

lemma minBytes_unat:
  "unat (minBytes n) =
     (if unat n = 0 then 0 else if unat n < 2 ^ 8 then 1 else if unat n < 2 ^ 16 then 2
      else if unat n < 2 ^ 24 then 3 else if unat n < 2 ^ 32 then 4
      else if unat n < 2 ^ 40 then 5 else if unat n < 2 ^ 48 then 6
      else if unat n < 2 ^ 56 then 7 else 8)"
  by (simp add: minBytes_def word_le_nat_alt unat_eq_0)

lemma ceil8_bitlength:
  "(bitlength m + 7) div 8 =
     (if m = 0 then 0 else if m < 2 ^ 8 then 1 else if m < 2 ^ 16 then 2
      else if m < 2 ^ 24 then 3 else if m < 2 ^ 32 then 4
      else if m < 2 ^ 40 then 5 else if m < 2 ^ 48 then 6
      else if m < 2 ^ 56 then 7 else if m < 2 ^ 64 then 8 else (bitlength m + 7) div 8)"
proof -
  have z: "m = 0 \<longleftrightarrow> bitlength m \<le> 0"
    using bitlength_le_iff [of m 0] by simp
  note b = bitlength_le_iff [of m, symmetric]
  show ?thesis
    unfolding z b by auto
qed

text \<open>
  C5: for every \<open>uint64\<close> value \<open>n\<close>, \<open>minBytes n\<close> is
  \<open>bitlength n\<close> divided by 8 and rounded up; it is 0 for 0 (and only for 0),
  it is at most 8, \<open>minBytes(0x100)\<close> is 2 and \<open>minBytes(0xff)\<close> is 1.
\<close>

theorem minBytes_ceil_bitlength:
  "unat (minBytes n) = (bitlength (unat n) + 7) div 8
   \<and> (minBytes n = 0 \<longleftrightarrow> n = 0)
   \<and> minBytes n \<le> 8
   \<and> minBytes 0x100 = 2 \<and> minBytes 0xff = 1"
proof -
  have "unat n < 2 ^ 64"
    using unsigned_less [of n] by simp
  then have "unat (minBytes n) = (bitlength (unat n) + 7) div 8"
    by (subst ceil8_bitlength) (simp add: minBytes_unat)
  moreover have "minBytes n = 0 \<longleftrightarrow> n = 0"
    by (simp add: minBytes_def)
  moreover have "minBytes n \<le> 8"
    by (simp add: minBytes_def)
  moreover have "minBytes 0x100 = 2" "minBytes 0xff = 1"
    by (simp_all add: minBytes_def)
  ultimately show ?thesis by simp
qed

subsection \<open>Reading bytes\<close>

lemma ReadFull_Some:
  "ReadFull src k = (Some bs, src') \<Longrightarrow> length bs = k \<and> src' = sdrop k src"
proof (induction k arbitrary: src bs src')
  case 0
  then show ?case by simp
next
  case (Suc k)
  then show ?case
    by (auto split: option.splits prod.splits)
qed

lemma ReadFull_zero: "ReadFull src 0 = (Some [], src)"
  by simp

lemma bytes_of_bits:
  fixes n :: uint
  assumes "n \<le> 64"
  shows "unat ((n + 7) div 8) = (unat n + 7) div 8"
proof -
  have "unat n \<le> 64"
    using assms by (simp add: word_le_nat_alt)
  then have "unat (n + 7) = unat n + 7"
    by (simp add: unat_word_ariths)
  then show ?thesis
    by (simp add: unat_div)
qed

lemma ReadUint64Bits_invalid:
  "64 < n \<Longrightarrow> ReadUint64Bits src n =
     (Inl (InvalidArgument ''abr.Uint64Bits can not return more than 64 random bits''), src)"
  by (simp add: ReadUint64Bits_def)

lemma ReadUint64Bits_valid:
  "n \<le> 64 \<Longrightarrow> ReadUint64Bits src n =
     (case ReadFull src ((unat n + 7) div 8) of
        (None, src') \<Rightarrow> (Inl SourceError, src')
      | (Some bs, src') \<Rightarrow>
          (Inr (le_uint64 (bs @ replicate (8 - length bs) 0) AND mask (unat n)), src'))"
  by (auto simp: ReadUint64Bits_def bytes_of_bits Let_def
      simp flip: mask_eq_exp_minus_1 split: prod.splits option.splits)

lemma ReadUint64Bits_Inr:
  assumes "ReadUint64Bits src n = (Inr r, src')"
  shows "n \<le> 64" and "src' = sdrop ((unat n + 7) div 8) src"
    and "\<exists>x. r = x AND mask (unat n)"
proof -
  show le: "n \<le> 64"
    using assms by (cases "64 < n") (simp_all add: ReadUint64Bits_invalid)
  from assms show "src' = sdrop ((unat n + 7) div 8) src"
    by (auto simp: ReadUint64Bits_valid [OF le] split: prod.splits option.splits
        dest: ReadFull_Some)
  from assms show "\<exists>x. r = x AND mask (unat n)"
    by (auto simp: ReadUint64Bits_valid [OF le] split: prod.splits option.splits)
qed

lemma ReadUint64Bits_Inl:
  assumes "ReadUint64Bits src n = (Inl p, src')" and "n \<le> 64"
  shows "p = SourceError"
  using assms by (auto simp: ReadUint64Bits_valid split: prod.splits option.splits)

lemma ReadUint64Bits_zero: "ReadUint64Bits src 0 = (Inr 0, src)"
  by (simp add: ReadUint64Bits_valid)

lemma ReadFull_sconst:
  "ReadFull (sconst (Some b)) k = (Some (replicate k b), sconst (Some b))"
  by (induction k) simp_all

lemma ReadFull_sconst_None:
  "ReadFull (sconst None) (Suc k) = (None, sconst None)"
  by simp

lemma bits_of_minBytes:
  "minBytes x * 8 \<le> 64"
  "unat (minBytes x * 8) = 8 * unat (minBytes x)"
  "(unat (minBytes x * 8) + 7) div 8 = unat (minBytes x)"
  by (simp_all add: minBytes_def)

subsection \<open>The bits of \<open>ReadUint64Bits\<close>\<close>

text \<open>
  C3: for \<open>n\<close> from 0 to 64 and every reader, the value that
  \<open>ReadUint64Bits src n\<close> returns has no bit set at a position \<open>n\<close> or above.
  For \<open>n = 64\<close> the mask \<open>(1 << n) - 1\<close> is all ones, and the value assembled
  from the 8 bytes read is returned as it is.
\<close>

theorem ReadUint64Bits_high_bits_zero:
  assumes "n \<le> 64" and "ReadUint64Bits src n = (Inr r, src')"
  shows "(\<forall>i. unat n \<le> i \<longrightarrow> \<not> bit r i)
    \<and> (n = 64 \<longrightarrow> push_bit (unat n) (1 :: uint64) - 1 = - 1
          \<and> (\<exists>bs. ReadFull src 8 = (Some bs, src') \<and> r = le_uint64 bs))"
proof -
  obtain x where "r = x AND mask (unat n)"
    using ReadUint64Bits_Inr(3) [OF assms(2)] by blast
  then have high: "\<forall>i. unat n \<le> i \<longrightarrow> \<not> bit r i"
    by (simp add: bit_and_iff bit_mask_iff)
  have full: "push_bit (unat n) (1 :: uint64) - 1 = - 1
      \<and> (\<exists>bs. ReadFull src 8 = (Some bs, src') \<and> r = le_uint64 bs)" if n: "n = 64"
  proof -
    obtain bs where bs: "ReadFull src 8 = (Some bs, src')"
      and r: "r = le_uint64 (bs @ replicate (8 - length bs) 0) AND mask 64"
      using assms(2) unfolding n
      by (auto simp: ReadUint64Bits_valid split: prod.splits option.splits)
    have "length bs = 8"
      using ReadFull_Some [OF bs] by simp
    moreover have "mask 64 = (- 1 :: uint64)"
      by (simp add: mask_eq_exp_minus_1)
    ultimately have "r = le_uint64 bs"
      using r by simp
    with bs n show ?thesis by simp
  qed
  from high full show ?thesis by blast
qed

theorem ReadUint64Bits_high_bits_zero_witness:
  "ReadUint64Bits (sconst (Some 0xff)) 9 = (Inr 0x1ff, sconst (Some 0xff))
   \<and> \<not> bit (0x1ff :: uint64) 9 \<and> \<not> bit (0x1ff :: uint64) 63
   \<and> ReadUint64Bits (sconst (Some 0xff)) 64 = (Inr 0xffffffffffffffff, sconst (Some 0xff))
   \<and> le_uint64 (replicate 8 0xff) = 0xffffffffffffffff"
proof -
  let ?src = "sconst (Some (0xff :: byte))"
  have le: "le_uint64 (replicate 8 0xff) = 0xffffffffffffffff"
    by (simp add: le_uint64_def)
  have a: "ReadUint64Bits ?src 9 = (Inr 0x1ff, ?src)"
    by (simp add: ReadUint64Bits_valid ReadFull_sconst le_uint64_def mask_eq_exp_minus_1
        nth_append)
  have b: "ReadUint64Bits ?src 64 = (Inr 0xffffffffffffffff, ?src)"
    by (simp add: ReadUint64Bits_valid ReadFull_sconst le mask_eq_exp_minus_1)
  have "(9 :: uint) \<le> 64" "(64 :: uint) \<le> 64"
    by simp_all
  from ReadUint64Bits_high_bits_zero [OF this(1) a] ReadUint64Bits_high_bits_zero [OF this(2) b]
  show ?thesis
    using a b le by simp
qed

subsection \<open>The rejection loop\<close>

lemma ReadIntn_loop_result:
  assumes "ReadIntn_loop src bits limit N = Some y"
  shows "bits \<le> 64 \<longrightarrow>
    (case fst y of Inl p \<Rightarrow> p = SourceError
     | Inr v \<Rightarrow> \<exists>r. r < limit \<and> v = r mod N)"
proof (rule ReadIntn_loop.raw_induct [where P = "\<lambda>src bits limit N y. bits \<le> 64 \<longrightarrow>
    (case fst y of Inl p \<Rightarrow> p = SourceError
     | Inr v \<Rightarrow> \<exists>r. r < limit \<and> v = r mod N)", OF _ assms])
  fix f :: "reader \<Rightarrow> uint \<Rightarrow> uint64 \<Rightarrow> uint64 \<Rightarrow> go_int outcome option"
    and src bits limit N y
  assume IH: "\<And>src bits limit N y. f src bits limit N = Some y \<Longrightarrow>
      bits \<le> 64 \<longrightarrow>
        (case fst y of Inl p \<Rightarrow> p = SourceError
         | Inr v \<Rightarrow> \<exists>r. r < limit \<and> v = r mod N)"
    and body: "(case ReadUint64Bits src bits of
        (Inl p, src') \<Rightarrow> Some (Inl p, src')
      | (Inr r, src') \<Rightarrow>
          if r < limit then Some (Inr (r mod N), src') else f src' bits limit N) = Some y"
  show "bits \<le> 64 \<longrightarrow>
    (case fst y of Inl p \<Rightarrow> p = SourceError
     | Inr v \<Rightarrow> \<exists>r. r < limit \<and> v = r mod N)"
  proof
    assume le: "bits \<le> 64"
    obtain res src' where rd: "ReadUint64Bits src bits = (res, src')"
      by (cases "ReadUint64Bits src bits")
    show "case fst y of Inl p \<Rightarrow> p = SourceError | Inr v \<Rightarrow> \<exists>r. r < limit \<and> v = r mod N"
    proof (cases res)
      case (Inl p)
      with rd le have "p = SourceError"
        by (auto dest: ReadUint64Bits_Inl)
      with body rd Inl show ?thesis by auto
    next
      case (Inr r)
      show ?thesis
      proof (cases "r < limit")
        case True
        with body rd Inr show ?thesis by auto
      next
        case False
        with body rd Inr have "f src' bits limit N = Some y" by simp
        from IH [OF this] le show ?thesis by simp
      qed
    qed
  qed
qed

lemma ReadIntn_invalid:
  "n \<le>s 0 \<Longrightarrow> ReadIntn src n = Some (Inl (InvalidArgument ''invalid argument to Intn''), src)"
  by (simp add: ReadIntn_def)

lemma ReadIntn_pow2:
  "\<not> n \<le>s 0 \<Longrightarrow> n AND (n - 1) = 0 \<Longrightarrow>
     ReadIntn src n =
       (case ReadUint64Bits src (minBytes (n - 1) * 8) of
          (Inl p, src') \<Rightarrow> Some (Inl p, src')
        | (Inr r, src') \<Rightarrow> Some (Inr (r AND (n - 1)), src'))"
  by (simp add: ReadIntn_def)

lemma ReadIntn_general:
  "\<not> n \<le>s 0 \<Longrightarrow> n AND (n - 1) \<noteq> 0 \<Longrightarrow>
     ReadIntn src n =
       ReadIntn_loop src (minBytes (n - 1) * 8)
         (push_bit (unat (minBytes (n - 1) * 8)) 1
            - (push_bit (unat (minBytes (n - 1) * 8)) 1 - n) mod n) n"
  by (simp add: ReadIntn_def Let_def)

lemma ReadIntn_Inl:
  assumes "ReadIntn src n = Some (Inl p, src')" and "\<not> n \<le>s 0"
  shows "p = SourceError"
proof (cases "n AND (n - 1) = 0")
  case True
  with assms show ?thesis
    by (auto simp: ReadIntn_pow2 split: prod.splits sum.splits
        dest: ReadUint64Bits_Inl [OF _ bits_of_minBytes(1)])
next
  case False
  with assms ReadIntn_loop_result [of src "minBytes (n - 1) * 8" _ n "(Inl p, src')"]
  show ?thesis
    by (simp add: ReadIntn_general bits_of_minBytes(1))
qed

subsection \<open>Bad arguments\<close>

text \<open>
  C8: \<open>ReadUint64Bits src n\<close> panics on its argument exactly when \<open>n > 64\<close>,
  and \<open>ReadIntn src k\<close> exactly when \<open>k \<le> 0\<close>.  In both the reader is left as
  it was: nothing has been read.  Every other panic of the two functions is
  the error of a read.
\<close>

theorem InvalidArgument_exactly:
  "((\<exists>msg. fst (ReadUint64Bits src n) = Inl (InvalidArgument msg)) \<longleftrightarrow> 64 < n)
   \<and> (64 < n \<longrightarrow> snd (ReadUint64Bits src n) = src)
   \<and> (\<forall>p. n \<le> 64 \<longrightarrow> fst (ReadUint64Bits src n) = Inl p \<longrightarrow> p = SourceError)
   \<and> ((\<exists>msg s. ReadIntn src k = Some (Inl (InvalidArgument msg), s)) \<longleftrightarrow> k \<le>s 0)
   \<and> (k \<le>s 0 \<longrightarrow> (\<exists>msg. ReadIntn src k = Some (Inl (InvalidArgument msg), src)))
   \<and> (\<forall>p s. \<not> k \<le>s 0 \<longrightarrow> ReadIntn src k = Some (Inl p, s) \<longrightarrow> p = SourceError)"
proof -
  have u3: "p = SourceError" if "n \<le> 64" "fst (ReadUint64Bits src n) = Inl p" for p
    using that ReadUint64Bits_Inl [of src n p "snd (ReadUint64Bits src n)"]
    by (cases "ReadUint64Bits src n") simp
  have u1: "(\<exists>msg. fst (ReadUint64Bits src n) = Inl (InvalidArgument msg)) \<longleftrightarrow> 64 < n"
  proof (cases "64 < n")
    case True
    then show ?thesis by (simp add: ReadUint64Bits_invalid)
  next
    case False
    then have "n \<le> 64" by simp
    with u3 False show ?thesis by fastforce
  qed
  have u2: "64 < n \<longrightarrow> snd (ReadUint64Bits src n) = src"
    by (simp add: ReadUint64Bits_invalid)
  have i3: "p = SourceError" if "\<not> k \<le>s 0" "ReadIntn src k = Some (Inl p, s)" for p s
    using that ReadIntn_Inl by blast
  have i2: "k \<le>s 0 \<longrightarrow> (\<exists>msg. ReadIntn src k = Some (Inl (InvalidArgument msg), src))"
    by (simp add: ReadIntn_invalid)
  have i1: "(\<exists>msg s. ReadIntn src k = Some (Inl (InvalidArgument msg), s)) \<longleftrightarrow> k \<le>s 0"
  proof (cases "k \<le>s 0")
    case True
    then show ?thesis by (simp add: ReadIntn_invalid)
  next
    case False
    with i3 show ?thesis by fastforce
  qed
  from u1 u2 u3 i1 i2 i3 show ?thesis by blast
qed

theorem InvalidArgument_exactly_witness:
  "ReadUint64Bits (sconst None) 65 =
     (Inl (InvalidArgument ''abr.Uint64Bits can not return more than 64 random bits''), sconst None)
   \<and> ReadUint64Bits (sconst None) 8 = (Inl SourceError, sconst None)
   \<and> ReadIntn (sconst None) 0 = Some (Inl (InvalidArgument ''invalid argument to Intn''), sconst None)
   \<and> ReadIntn (sconst None) (- 1) = Some (Inl (InvalidArgument ''invalid argument to Intn''), sconst None)
   \<and> ReadIntn (sconst None) 3 = Some (Inl SourceError, sconst None)"
proof -
  let ?src = "sconst (None :: byte option)"
  have a: "ReadUint64Bits ?src 65 =
     (Inl (InvalidArgument ''abr.Uint64Bits can not return more than 64 random bits''), ?src)"
    by (simp add: ReadUint64Bits_invalid)
  have b: "ReadUint64Bits ?src 8 = (Inl SourceError, ?src)"
    by (simp add: ReadUint64Bits_valid)
  have c: "ReadIntn ?src 0 = Some (Inl (InvalidArgument ''invalid argument to Intn''), ?src)"
    "ReadIntn ?src (- 1) = Some (Inl (InvalidArgument ''invalid argument to Intn''), ?src)"
    by (simp_all add: ReadIntn_invalid)
  have d: "ReadIntn ?src 3 = Some (Inl SourceError, ?src)"
    by (simp add: ReadIntn_general minBytes_def word_sle_eq)
      (simp add: ReadIntn_loop.simps [of ?src] b)
  note w1 = InvalidArgument_exactly [of ?src 65 0]
  note w2 = InvalidArgument_exactly [of ?src 8 3]
  from w1 w2 a b c d show ?thesis by simp
qed

subsection \<open>The range of one value\<close>

lemma ReadIntn_of_one: "ReadIntn src 1 = Some (Inr 0, src)"
proof -
  have "\<not> (1 :: go_int) \<le>s 0" "(1 :: go_int) AND (1 - 1) = 0"
    by (simp_all add: word_sle_eq)
  from ReadIntn_pow2 [OF this] show ?thesis
    by (simp add: minBytes_def ReadUint64Bits_zero)
qed

text \<open>
  C10: \<open>ReadIntn src 1\<close> returns 0 for every reader, and leaves the reader as
  it was: \<open>bits\<close> is 0, the power-of-two path asks \<open>ReadUint64Bits\<close> for 0
  bits, and no byte is read.  So it succeeds on an empty or failing reader
  as well.
\<close>

theorem ReadIntn_one: "ReadIntn src 1 = Some (Inr 0, src)"
  by (rule ReadIntn_of_one)

subsection \<open>Powers of two\<close>

text \<open>
  C4: for \<open>n > 0\<close> with \<open>n & (n-1) == 0\<close>, \<open>ReadIntn src n\<close> is one call
  \<open>ReadUint64Bits src bits\<close> with \<open>bits = minBytes(n-1)*8\<close>, its value masked
  with \<open>n-1\<close>; the rejection loop is not entered.  That call asks
  \<open>io.ReadFull\<close> for \<open>minBytes(n-1)\<close> bytes, and when a value is returned the
  reader has moved on by exactly that many bytes.
\<close>

theorem ReadIntn_power_of_two:
  assumes "0 <s n" and "n AND (n - 1) = 0"
  shows "ReadIntn src n =
      Some (case ReadUint64Bits src (minBytes (n - 1) * 8) of
              (Inl p, src') \<Rightarrow> (Inl p, src')
            | (Inr r, src') \<Rightarrow> (Inr (r AND (n - 1)), src'))
    \<and> ReadUint64Bits src (minBytes (n - 1) * 8) =
        (case ReadFull src (unat (minBytes (n - 1))) of
           (None, src') \<Rightarrow> (Inl SourceError, src')
         | (Some bs, src') \<Rightarrow>
             (Inr (le_uint64 (bs @ replicate (8 - length bs) 0)
                AND mask (8 * unat (minBytes (n - 1)))), src'))
    \<and> (\<forall>v src'. ReadIntn src n = Some (Inr v, src') \<longrightarrow>
          src' = sdrop (unat (minBytes (n - 1))) src)"
proof -
  from assms(1) have pos: "\<not> n \<le>s 0"
    by (simp add: signed.not_le)
  let ?bits = "minBytes (n - 1) * 8"
  have one: "ReadIntn src n =
      Some (case ReadUint64Bits src ?bits of
              (Inl p, src') \<Rightarrow> (Inl p, src')
            | (Inr r, src') \<Rightarrow> (Inr (r AND (n - 1)), src'))"
    by (simp add: ReadIntn_pow2 [OF pos assms(2)] split: prod.splits sum.splits)
  have rd: "ReadUint64Bits src ?bits =
        (case ReadFull src (unat (minBytes (n - 1))) of
           (None, src') \<Rightarrow> (Inl SourceError, src')
         | (Some bs, src') \<Rightarrow>
             (Inr (le_uint64 (bs @ replicate (8 - length bs) 0)
                AND mask (8 * unat (minBytes (n - 1)))), src'))"
    by (auto simp: ReadUint64Bits_valid [OF bits_of_minBytes(1)] bits_of_minBytes(2,3)
        split: prod.splits option.splits)
  have "src' = sdrop (unat (minBytes (n - 1))) src"
    if "ReadIntn src n = Some (Inr v, src')" for v src'
  proof -
    from that obtain r where "ReadUint64Bits src ?bits = (Inr r, src')"
      unfolding one by (auto split: prod.splits sum.splits)
    from ReadUint64Bits_Inr(2) [OF this] show ?thesis
      by (simp add: bits_of_minBytes(3))
  qed
  with one rd show ?thesis by blast
qed

theorem ReadIntn_power_of_two_witness:
  "(0 :: go_int) <s 64 \<and> (64 :: go_int) AND (64 - 1) = 0
   \<and> ReadIntn (Some 0x41 ## Some 0x02 ## sconst None) 64
       = Some (Inr 1, Some 0x02 ## sconst None)
   \<and> unat (minBytes (64 - 1)) = 1
   \<and> ReadFull (Some 0x41 ## Some 0x02 ## sconst None) 1
       = (Some [0x41], Some 0x02 ## sconst None)"
proof -
  let ?src = "Some (0x41 :: byte) ## Some 0x02 ## sconst None"
  have h: "(0 :: go_int) <s 64" "(64 :: go_int) AND (64 - 1) = 0"
    by (simp_all add: word_sless_alt)
  have m: "minBytes (64 - 1) = 1"
    by (simp add: minBytes_def)
  have f: "ReadFull ?src 1 = (Some [0x41], Some 0x02 ## sconst None)"
    by simp
  have l: "le_uint64 (0x41 # replicate 7 0) = 0x41"
    by (simp add: le_uint64_def)
  from ReadIntn_power_of_two [OF h, of ?src] have
    "ReadIntn ?src 64 = Some (Inr 1, Some 0x02 ## sconst None)"
    unfolding m by (simp add: f l mask_eq_exp_minus_1)
  with h m f show ?thesis by simp
qed

subsection \<open>The limit of the rejection loop\<close>

lemma dvd_power_of_two:
  fixes d :: nat
  shows "d dvd 2 ^ k \<Longrightarrow> \<exists>j. d = 2 ^ j"
proof (induction k arbitrary: d)
  case 0
  then have "d = 2 ^ 0" by simp
  then show ?case by blast
next
  case (Suc k)
  show ?case
  proof (cases "even d")
    case True
    then obtain e where e: "d = 2 * e" by (elim evenE)
    with Suc.prems have "e dvd 2 ^ k" by simp
    then obtain j where "e = 2 ^ j" using Suc.IH by blast
    with e have "d = 2 ^ Suc j" by simp
    then show ?thesis by blast
  next
    case False
    then have "coprime d 2"
      by (simp add: coprime_right_2_iff_odd)
    with Suc.prems have "d dvd 2 ^ k"
      by (simp add: coprime_dvd_mult_right_iff)
    then show ?thesis using Suc.IH by blast
  qed
qed

lemma power_of_two_and_pred:
  fixes n :: uint64
  assumes "unat n = 2 ^ j"
  shows "n AND (n - 1) = 0"
proof -
  have "n = of_nat (unat n)"
    by simp
  also have "\<dots> = 2 ^ j"
    unfolding assms by simp
  finally have "n = 2 ^ j" .
  then have "n - 1 = mask j"
    by (simp add: mask_eq_exp_minus_1)
  with \<open>n = 2 ^ j\<close> show ?thesis
    by (auto intro!: bit_eqI simp: bit_and_iff bit_exp_iff bit_mask_iff)
qed

lemma not_power_of_two_not_dvd:
  fixes n :: uint64
  assumes "n AND (n - 1) \<noteq> 0"
  shows "\<not> unat n dvd 2 ^ k"
  using assms dvd_power_of_two power_of_two_and_pred by blast

lemma minBytes_covers: "unat x < 2 ^ (8 * unat (minBytes x))"
proof -
  have "unat x < 2 ^ 64"
    using unsigned_less [of x] by simp
  then show ?thesis
    by (simp add: minBytes_unat)
qed

lemma minBytes_le_8: "unat (minBytes x) \<le> 8"
  by (simp add: minBytes_unat)

lemma unat_of_nat_sub:
  fixes P d :: nat
  assumes "d \<le> P" and "P - d < 2 ^ 64"
  shows "unat (of_nat P - of_nat d :: uint64) = P - d"
proof -
  have "(of_nat P - of_nat d :: uint64) = of_nat (P - d)"
    using assms(1) by simp
  then show ?thesis
    using assms(2) by (simp add: unat_of_nat)
qed

lemma largest_multiple:
  fixes N P :: nat
  assumes "0 < N" and "N \<le> P" and "\<not> N dvd P"
  shows "0 < P mod N" and "(P - N) mod N = P mod N"
    and "P - P mod N = P div N * N"
    and "P < 2 * (P - P mod N)"
proof -
  show "0 < P mod N"
    using assms(3) by (simp add: dvd_eq_mod_eq_0)
  show "(P - N) mod N = P mod N"
    using assms(2) by (simp add: le_mod_geq)
  show eq: "P - P mod N = P div N * N"
    by (simp add: minus_mod_eq_div_mult)
  have "1 \<le> P div N"
    using assms(1,2) by (simp add: div_greater_zero_iff Suc_le_eq)
  then have a: "N \<le> P div N * N"
    by simp
  have b: "P mod N < N"
    using assms(1) by simp
  from b a have "P mod N < P div N * N"
    by (rule less_le_trans)
  then have "P mod N < P - P mod N"
    unfolding eq .
  moreover have "P mod N \<le> P"
    by simp
  ultimately show "P < 2 * (P - P mod N)"
    by linarith
qed

lemma limit_value:
  fixes n :: uint64
  assumes pos: "n \<noteq> 0" and np2: "n AND (n - 1) \<noteq> 0"
  defines "b \<equiv> unat (minBytes (n - 1) * 8)"
  defines "M \<equiv> push_bit b (1 :: uint64)"
  shows "unat n \<le> 2 ^ b" and "b \<le> 64"
    and "unat (M - (M - n) mod n) = 2 ^ b - 2 ^ b mod unat n"
proof -
  let ?N = "unat n" and ?P = "(2 :: nat) ^ b"
  have N0: "0 < ?N"
    using pos by (simp add: unat_gt_0)
  have b8: "b = 8 * unat (minBytes (n - 1))"
    unfolding b_def by (rule bits_of_minBytes(2))
  with minBytes_le_8 [of "n - 1"] show b64: "b \<le> 64"
    by simp
  then have P64: "?P \<le> 2 ^ 64"
    by (rule power_increasing) simp
  have "unat (n - 1) = ?N - 1"
    using pos by (simp add: unat_minus_one)
  with minBytes_covers [of "n - 1"] N0 show NP: "?N \<le> ?P"
    unfolding b8 by simp
  have ndvd: "\<not> ?N dvd ?P"
    using np2 by (rule not_power_of_two_not_dvd)
  note lm = largest_multiple [OF N0 NP ndvd]
  have M: "M = of_nat ?P"
    unfolding M_def by (simp add: push_bit_eq_mult)
  have n: "n = of_nat ?N"
    by simp
  have "?P - ?N < ?P"
    using N0 by simp
  then have "?P - ?N < 2 ^ 64"
    using P64 by (rule less_le_trans)
  with NP have "unat (of_nat ?P - of_nat ?N :: uint64) = ?P - ?N"
    by (rule unat_of_nat_sub)
  then have "unat (M - n) = ?P - ?N"
    unfolding M by simp
  then have "unat ((M - n) mod n) = ?P mod ?N"
    by (simp add: unat_mod lm(2))
  moreover have "(M - n) mod n = of_nat (unat ((M - n) mod n))"
    by simp
  ultimately have d: "(M - n) mod n = of_nat (?P mod ?N)"
    by simp
  have "?P - ?P mod ?N < ?P"
    using lm(1) by simp
  then have "?P - ?P mod ?N < 2 ^ 64"
    using P64 by (rule less_le_trans)
  moreover have "?P mod ?N \<le> ?P"
    by simp
  ultimately have "unat (of_nat ?P - of_nat (?P mod ?N) :: uint64) = ?P - ?P mod ?N"
    by (intro unat_of_nat_sub)
  then show "unat (M - (M - n) mod n) = ?P - ?P mod ?N"
    unfolding d unfolding M .
qed

lemma and_pred_zero_power_of_two:
  fixes m :: nat
  shows "0 < m \<Longrightarrow> m AND (m - 1) = 0 \<Longrightarrow> \<exists>j. m = 2 ^ j"
proof (induction m rule: less_induct)
  case (less m)
  show ?case
  proof (cases "even m")
    case True
    then obtain h where h: "m = 2 * h" by (elim evenE)
    with less.prems(1) have h0: "0 < h" by simp
    have "m - 1 = 2 * (h - 1) + 1"
      using h h0 by simp
    then have "m AND (m - 1) = 2 * (h AND (h - 1))"
      unfolding h by (subst and_rec) simp
    with less.prems(2) have "h AND (h - 1) = 0" by simp
    moreover have "h < m" using h h0 by simp
    ultimately obtain j where "h = 2 ^ j"
      using less.IH h0 by blast
    with h have "m = 2 ^ Suc j" by simp
    then show ?thesis by blast
  next
    case False
    then obtain h where h: "m = 2 * h + 1" by (elim oddE)
    then have "m AND (m - 1) = 2 * h"
      by (subst and_rec) simp
    with less.prems(2) have "h = 0" by simp
    with h have "m = 2 ^ 0" by simp
    then show ?thesis by blast
  qed
qed

lemma power_of_two_test:
  fixes n :: uint64
  assumes "n \<noteq> 0"
  shows "n AND (n - 1) = 0 \<longleftrightarrow> (\<exists>j. unat n = 2 ^ j)"
proof
  assume z: "n AND (n - 1) = 0"
  have "unat (n AND (n - 1)) = unat n AND (unat n - 1)"
    using assms by (simp add: unsigned_and_eq unat_minus_one)
  with z have "unat n AND (unat n - 1) = 0" by simp
  moreover have "0 < unat n"
    using assms by (simp add: unat_gt_0)
  ultimately show "\<exists>j. unat n = 2 ^ j"
    by (rule and_pred_zero_power_of_two [rotated])
next
  assume "\<exists>j. unat n = 2 ^ j"
  then show "n AND (n - 1) = 0"
    using power_of_two_and_pred by blast
qed

text \<open>
  C1: in the general case of \<open>ReadIntn\<close>, for \<open>n > 0\<close> that is not a power of
  two, with \<open>N = uint64(n)\<close>, \<open>bits = minBytes(N-1)*8\<close> and \<open>M = 1 << bits\<close>
  (0 when \<open>bits\<close> is 64), the value \<open>limit = M - (M-N)%N\<close> computed on 64-bit
  words is the largest multiple of \<open>N\<close> that does not exceed \<open>2 ^ bits\<close>, and
  it is more than half of \<open>2 ^ bits\<close>, so fewer than half of the values
  of a draw are rejected.  It is the limit that the loop runs with.
\<close>

theorem ReadIntn_limit:
  fixes n :: go_int
  assumes "0 <s n" and "\<not> (\<exists>j. unat n = 2 ^ j)"
  shows "let N = n; bits = minBytes (N - 1) * 8; M = push_bit (unat bits) (1 :: uint64);
             limit = M - (M - N) mod N
         in ReadIntn src n = ReadIntn_loop src bits limit N
            \<and> (unat bits = 64 \<longrightarrow> M = 0)
            \<and> unat N dvd unat limit \<and> unat limit \<le> 2 ^ unat bits
            \<and> (\<forall>m. unat N dvd m \<longrightarrow> m \<le> 2 ^ unat bits \<longrightarrow> m \<le> unat limit)
            \<and> 2 ^ unat bits < 2 * unat limit"
proof -
  let ?b = "unat (minBytes (n - 1) * 8)"
  let ?M = "push_bit ?b (1 :: uint64)"
  let ?limit = "?M - (?M - n) mod n"
  let ?N = "unat n" and ?P = "(2 :: nat) ^ ?b"
  from assms(1) have pos: "\<not> n \<le>s 0"
    by (simp add: signed.not_le)
  from assms(1) have n0: "n \<noteq> 0"
    by auto
  with assms(2) have np2: "n AND (n - 1) \<noteq> 0"
    by (simp add: power_of_two_test)
  have run: "ReadIntn src n = ReadIntn_loop src (minBytes (n - 1) * 8) ?limit n"
    using pos np2 by (rule ReadIntn_general)
  have wrap: "?b = 64 \<longrightarrow> ?M = 0"
    by simp
  note lv = limit_value [OF n0 np2]
  have N0: "0 < ?N"
    using n0 by (simp add: unat_gt_0)
  have ndvd: "\<not> ?N dvd ?P"
    using np2 by (rule not_power_of_two_not_dvd)
  note lm = largest_multiple [OF N0 lv(1) ndvd]
  have lim: "unat ?limit = ?P div ?N * ?N"
    using lv(3) lm(3) by simp
  have dvd: "?N dvd unat ?limit"
    unfolding lim by simp
  have le: "unat ?limit \<le> ?P"
    unfolding lv(3) by simp
  have largest: "m \<le> unat ?limit" if "?N dvd m" "m \<le> ?P" for m
  proof -
    from that(1) obtain k where k: "m = k * ?N"
      by (auto simp: dvd_def mult.commute)
    with that(2) N0 have "k \<le> ?P div ?N"
      by (simp add: less_eq_div_iff_mult_less_eq)
    then show ?thesis
      unfolding lim k by simp
  qed
  have half: "?P < 2 * unat ?limit"
    unfolding lv(3) by (rule lm(4))
  from run wrap dvd le largest half show ?thesis
    unfolding Let_def by blast
qed

theorem ReadIntn_limit_witness:
  "(0 :: go_int) <s 65
   \<and> ReadIntn (sconst None) 65 = ReadIntn_loop (sconst None) 8 195 65
   \<and> unat (65 :: uint64) dvd unat (195 :: uint64)
   \<and> unat (195 :: uint64) \<le> 2 ^ 8 \<and> (2 :: nat) ^ 8 < 2 * unat (195 :: uint64)
   \<and> (0 :: go_int) <s 0x7fffffffffffffff
   \<and> ReadIntn (sconst None) 0x7fffffffffffffff =
       ReadIntn_loop (sconst None) 64 0xfffffffffffffffe 0x7fffffffffffffff
   \<and> push_bit 64 (1 :: uint64) = 0
   \<and> unat (0x7fffffffffffffff :: uint64) dvd unat (0xfffffffffffffffe :: uint64)
   \<and> (2 :: nat) ^ 64 < 2 * unat (0xfffffffffffffffe :: uint64)"
proof -
  have a1: "(0 :: go_int) <s 65" and b1: "(0 :: go_int) <s 0x7fffffffffffffff"
    by (simp_all add: word_sless_alt)
  have a2: "\<not> (\<exists>j. unat (65 :: uint64) = 2 ^ j)"
    using power_of_two_test [of 65] by simp
  have b2: "\<not> (\<exists>j. unat (0x7fffffffffffffff :: uint64) = 2 ^ j)"
    using power_of_two_test [of "0x7fffffffffffffff"] by simp
  have m: "minBytes (65 - 1) * 8 = 8" "minBytes (0x7fffffffffffffff - 1) * 8 = 64"
    by (simp_all add: minBytes_def)
  from ReadIntn_limit [OF a1 a2, of "sconst None"]
  have a: "ReadIntn (sconst None) 65 = ReadIntn_loop (sconst None) 8 195 65
      \<and> unat (65 :: uint64) dvd unat (195 :: uint64)
      \<and> unat (195 :: uint64) \<le> 2 ^ 8 \<and> (2 :: nat) ^ 8 < 2 * unat (195 :: uint64)"
    unfolding Let_def m by simp
  from ReadIntn_limit [OF b1 b2, of "sconst None"]
  have b: "ReadIntn (sconst None) 0x7fffffffffffffff =
        ReadIntn_loop (sconst None) 64 0xfffffffffffffffe 0x7fffffffffffffff
      \<and> unat (0x7fffffffffffffff :: uint64) dvd unat (0xfffffffffffffffe :: uint64)
      \<and> (2 :: nat) ^ 64 < 2 * unat (0xfffffffffffffffe :: uint64)"
    unfolding Let_def m by simp
  have "push_bit 64 (1 :: uint64) = 0"
    by simp
  with a1 b1 a b show ?thesis by blast
qed

subsection \<open>The range of \<open>ReadIntn\<close>\<close>

lemma nonneg_below:
  fixes v n :: go_int
  assumes "0 <s n" and "v < n"
  shows "0 \<le>s v \<and> v <s n"
proof -
  have "0 < sint n"
    using assms(1) by (simp add: word_sless_alt)
  moreover have "sint n < 2 ^ 64"
    using sint_lt [of n] by simp
  ultimately have "take_bit 64 (sint n) = sint n"
    by (simp add: take_bit_int_eq_self)
  then have n: "sint n = uint n"
    by (simp add: uint_sint)
  have "uint v < uint n"
    using assms(2) by (simp add: word_less_def)
  moreover have "uint n < 2 ^ 63"
    using sint_lt [of n] unfolding n by simp
  ultimately have "uint v < 2 ^ 63"
    by simp
  moreover have "- (2 ^ 63) \<le> uint v"
  proof -
    have "- (2 ^ 63) \<le> (0 :: int)" by simp
    also have "0 \<le> uint v" by simp
    finally show ?thesis .
  qed
  ultimately have "signed_take_bit 63 (uint v) = uint v"
    by (intro signed_take_bit_int_eq_self)
  then have "sint v = uint v"
    by (simp add: sint_uint)
  with n \<open>uint v < uint n\<close> show ?thesis
    by (simp add: word_sle_eq word_sless_alt)
qed

lemma ReadIntn_Inr_bounds:
  assumes "0 <s n" and "ReadIntn src n = Some (Inr v, src')"
  shows "0 \<le>s v \<and> v <s n \<and> 0 \<le> sint v \<and> sint v < sint n"
proof -
  from assms(1) have pos: "\<not> n \<le>s 0"
    by (simp add: signed.not_le)
  from assms(1) have n0: "n \<noteq> 0"
    by auto
  have "v < n"
  proof (cases "n AND (n - 1) = 0")
    case True
    with assms(2) pos obtain r where "v = r AND (n - 1)"
      by (auto simp: ReadIntn_pow2 split: prod.splits sum.splits)
    then have "v \<le> n - 1"
      by (simp add: word_and_le1)
    then have "unat v \<le> unat n - 1"
      using n0 by (simp add: word_le_nat_alt unat_minus_one)
    moreover have "0 < unat n"
      using n0 by (simp add: unat_gt_0)
    ultimately show ?thesis
      by (simp add: word_less_nat_alt)
  next
    case False
    from ReadIntn_loop_result [OF assms(2) [unfolded ReadIntn_general [OF pos False]]]
    obtain r where "v = r mod n"
      by (auto simp: bits_of_minBytes(1))
    with n0 show ?thesis
      by (simp add: word_mod_less_divisor word_neq_0_conv)
  qed
  with assms(1) have "0 \<le>s v \<and> v <s n"
    by (rule nonneg_below)
  then show ?thesis
    by (simp add: word_sle_eq word_sless_alt)
qed

text \<open>
  C2: for \<open>n > 0\<close> and every reader, a value that \<open>ReadIntn src n\<close> returns
  lies in \<open>[0, n)\<close>, on the power-of-two path and on the rejection path.
\<close>

theorem ReadIntn_in_range:
  assumes "0 <s n" and "ReadIntn src n = Some (Inr v, src')"
  shows "0 \<le>s v \<and> v <s n \<and> 0 \<le> sint v \<and> sint v < sint n"
  using assms by (rule ReadIntn_Inr_bounds)

theorem ReadIntn_in_range_witness:
  "(0 :: go_int) <s 65
   \<and> ReadIntn (sconst (Some 0xc2)) 65 = Some (Inr 64, sconst (Some 0xc2))
   \<and> (0 :: go_int) \<le>s 64 \<and> (64 :: go_int) <s 65
   \<and> ReadIntn (sconst (Some 0xc2)) 64 = Some (Inr 2, sconst (Some 0xc2))
   \<and> (0 :: go_int) \<le>s 2 \<and> (2 :: go_int) <s 64"
proof -
  let ?src = "sconst (Some (0xc2 :: byte))"
  have h: "(0 :: go_int) <s 65" "(0 :: go_int) <s 64"
    by (simp_all add: word_sless_alt)
  have l: "le_uint64 (0xc2 # replicate 7 0) = 0xc2"
    by (simp add: le_uint64_def)
  have r: "ReadUint64Bits ?src 8 = (Inr 0xc2, ?src)"
    by (simp add: ReadUint64Bits_valid ReadFull_sconst l mask_eq_exp_minus_1)
  have a: "ReadIntn ?src 65 = Some (Inr 64, ?src)"
    by (simp add: ReadIntn_general minBytes_def word_sle_eq)
      (simp add: ReadIntn_loop.simps [of ?src] r)
  have b: "ReadIntn ?src 64 = Some (Inr 2, ?src)"
    by (simp add: ReadIntn_pow2 minBytes_def word_sle_eq r)
  from ReadIntn_in_range [OF h(1) a] ReadIntn_in_range [OF h(2) b] h a b
  show ?thesis by simp
qed

subsection \<open>Permutations\<close>

lemma swap_insert_step:
  assumes "I < length m" and "J \<le> I"
  shows "mset (take (Suc I) ((m[I := m ! J])[J := v])) = add_mset v (mset (take I m))"
proof (cases "J = I")
  case True
  with assms(1) have "take (Suc I) ((m[I := m ! J])[J := v]) = take I m @ [v]"
    by (simp add: take_Suc_conv_app_nth)
  then show ?thesis by simp
next
  case False
  with assms(2) have lt: "J < I" by simp
  let ?m' = "(m[I := m ! J])[J := v]"
  have J: "J < length (take I m)"
    using lt assms(1) by simp
  have nth: "take I m ! J = m ! J"
    using lt by simp
  have mem: "m ! J \<in># mset (take I m)"
    using nth_mem [OF J] unfolding nth by simp
  have "take (Suc I) ?m' = take I ?m' @ [?m' ! I]"
    using assms(1) by (simp add: take_Suc_conv_app_nth)
  moreover have "?m' ! I = m ! J"
    using assms(1) False by simp
  moreover have "take I ?m' = (take I m)[J := v]"
    by (simp add: take_update_swap list_update_beyond)
  ultimately have "mset (take (Suc I) ?m') =
      add_mset (m ! J) (mset ((take I m)[J := v]))"
    by simp
  also have "\<dots> = add_mset (m ! J) (add_mset v (mset (take I m) - {#m ! J#}))"
    using J by (simp add: mset_update nth)
  also have "\<dots> = add_mset v (mset (take I m))"
    using mem by simp
  finally show ?thesis .
qed

lemma sint_next:
  fixes i n :: go_int
  assumes "i <s n"
  shows "sint (i + 1) = sint i + 1"
proof -
  from assms have lt: "sint i < sint n"
    by (simp add: word_sless_alt)
  have "sint n < 2 ^ 63" "- (2 ^ 63) \<le> sint i"
    using sint_lt [of n] sint_ge [of i] by simp_all
  with lt show ?thesis
    by (simp add: sint_word_ariths signed_take_bit_int_eq_self)
qed

text \<open>
  Inside the loop, with \<open>0 \<le> i < n = len(m)\<close>, no index is out of range:
  the iteration is the draw and the two assignments.
\<close>

lemma ReadPerm_loop_step:
  assumes "0 \<le> sint i" and "i <s n" and "length m = nat (sint n)"
  shows "ReadPerm_loop src n i m =
     (case ReadIntn src (i + 1) of
        None \<Rightarrow> None
      | Some (Inl p, src') \<Rightarrow> Some (Inl p, src')
      | Some (Inr j, src') \<Rightarrow>
          ReadPerm_loop src' n (i + 1) ((m[idx i := m ! idx j])[idx j := i]))"
proof -
  have lt: "sint i < sint n"
    using assms(2) by (simp add: word_sless_alt)
  have i: "in_bounds i m"
    using assms(1,3) lt by (simp add: in_bounds_def word_sle_eq)
  have pos: "0 <s i + 1"
    using assms(1) sint_next [OF assms(2)] by (simp add: word_sless_alt)
  have "in_bounds j m" if "ReadIntn src (i + 1) = Some (Inr j, src')" for j src'
  proof -
    from ReadIntn_Inr_bounds [OF pos that] have "0 \<le> sint j" "sint j < sint i + 1"
      by (simp_all add: sint_next [OF assms(2)])
    with lt assms(3) show ?thesis
      by (simp add: in_bounds_def word_sle_eq)
  qed
  with i assms(2) show ?thesis
    by (subst ReadPerm_loop.simps) (auto split: option.splits prod.splits sum.splits)
qed

lemma ReadPerm_loop_permutation:
  assumes "ReadPerm_loop src n i m = Some (Inr m', src')"
    and "0 \<le> sint i" and "sint i \<le> sint n" and "length m = nat (sint n)"
    and "mset (map sint (take (nat (sint i)) m)) = mset (map int [0..<nat (sint i)])"
  shows "length m' = nat (sint n) \<and> mset (map sint m') = mset (map int [0..<nat (sint n)])"
  using assms
proof (induction src n i m rule: ReadPerm_loop.induct)
  case (1 src n i m)
  show ?case
  proof (cases "i <s n")
    case False
    then have "sint i = sint n"
      using "1.prems"(3) by (simp add: word_sless_alt)
    moreover from False "1.prems"(1) have "m' = m"
      by (subst (asm) ReadPerm_loop.simps) simp
    ultimately show ?thesis
      using "1.prems"(4,5) by simp
  next
    case True
    then have lt: "sint i < sint n"
      by (simp add: word_sless_alt)
    note nxt = sint_next [OF True]
    have pos: "0 <s i + 1"
      using "1.prems"(2) nxt by (simp add: word_sless_alt)
    note step = ReadPerm_loop_step [OF "1.prems"(2) True "1.prems"(4), of src]
    from "1.prems"(1) obtain j s where
      rd: "ReadIntn src (i + 1) = Some (Inr j, s)" and
      rest: "ReadPerm_loop s n (i + 1) ((m[idx i := m ! idx j])[idx j := i]) = Some (Inr m', src')"
      unfolding step by (auto split: option.splits prod.splits sum.splits)
    from ReadIntn_Inr_bounds [OF pos rd] have j: "0 \<le> sint j" "sint j \<le> sint i"
      by (simp_all add: nxt)
    let ?I = "nat (sint i)" and ?J = "nat (sint j)"
    have I: "?I < length m" and J: "?J \<le> ?I"
      using lt j "1.prems"(2,4) by simp_all
    have bj: "in_bounds j m" and bi: "in_bounds i m"
      using I J j "1.prems"(2) by (simp_all add: in_bounds_def word_sle_eq)
    have I1: "nat (sint (i + 1)) = Suc ?I"
      using "1.prems"(2) nxt by simp
    have "mset (map sint (take (Suc ?I) ((m[?I := m ! ?J])[?J := i]))) =
        image_mset sint (add_mset i (mset (take ?I m)))"
      using arg_cong [OF swap_insert_step [OF I J, of i], of "image_mset sint"] by simp
    also have "\<dots> = add_mset (int ?I) (mset (map int [0..<?I]))"
      using "1.prems"(2,5) by simp
    also have "\<dots> = mset (map int [0..<Suc ?I])"
      by simp
    finally have inv: "mset (map sint (take (nat (sint (i + 1)))
        ((m[idx i := m ! idx j])[idx j := i]))) = mset (map int [0..<nat (sint (i + 1))])"
      unfolding I1 idx_def .
    show ?thesis
    proof (rule "1.IH" [OF True rd refl refl _ rest])
      show "in_bounds j m \<and> in_bounds i m"
        using bj bi by simp
      show "0 \<le> sint (i + 1)"
        using "1.prems"(2) nxt by simp
      show "sint (i + 1) \<le> sint n"
        using lt nxt by simp
      show "length ((m[idx i := m ! idx j])[idx j := i]) = nat (sint n)"
        using "1.prems"(4) by simp
      show "mset (map sint (take (nat (sint (i + 1))) ((m[idx i := m ! idx j])[idx j := i]))) =
          mset (map int [0..<nat (sint (i + 1))])"
        by (rule inv)
    qed
  qed
qed

lemma int_upto_image: "0 \<le> k \<Longrightarrow> int ` {0..<nat k} = {0..<k}"
proof -
  assume "0 \<le> k"
  then have "x \<in> int ` {0..<nat k}" if "0 \<le> x" "x < k" for x
    using that by (intro image_eqI [of _ _ "nat x"]) simp_all
  then show ?thesis by auto
qed

lemma ReadPerm_Inr:
  assumes "0 \<le>s n" and "ReadPerm src n = Some (Inr m, src')"
  shows "length m = nat (sint n)
    \<and> mset (map sint m) = mset (map int [0..<nat (sint n)])
    \<and> distinct m \<and> sint ` set m = {0..<sint n}
    \<and> ReadPerm src n = ReadPerm_loop src n 0 (replicate (nat (sint n)) 0)
    \<and> (\<forall>s i a. 0 \<le> sint i \<longrightarrow> i <s n \<longrightarrow> length a = nat (sint n) \<longrightarrow>
          ReadPerm_loop s n i a =
            (case ReadIntn s (i + 1) of
               None \<Rightarrow> None
             | Some (Inl p, s') \<Rightarrow> Some (Inl p, s')
             | Some (Inr j, s') \<Rightarrow>
                 ReadPerm_loop s' n (i + 1) ((a[idx i := a ! idx j])[idx j := i])))"
proof -
  from assms(1) have n0: "0 \<le> sint n"
    by (simp add: word_sle_eq)
  then have nneg: "\<not> n <s 0"
    by (simp add: word_sless_alt)
  then have start: "ReadPerm src n = ReadPerm_loop src n 0 (replicate (nat (sint n)) 0)"
    by (simp add: ReadPerm_def)
  with assms(2) have "ReadPerm_loop src n 0 (replicate (nat (sint n)) 0) = Some (Inr m, src')"
    by simp
  from ReadPerm_loop_permutation [OF this] n0
  have len: "length m = nat (sint n)"
    and perm: "mset (map sint m) = mset (map int [0..<nat (sint n)])"
    by simp_all
  have "distinct (map int [0..<nat (sint n)])"
    by (simp add: distinct_map)
  with mset_eq_imp_distinct_iff [OF perm] have "distinct (map sint m)"
    by blast
  then have dist: "distinct m"
    by (simp add: distinct_map)
  from perm have "set (map sint m) = set (map int [0..<nat (sint n)])"
    by (rule mset_eq_setD)
  then have set: "sint ` set m = {0..<sint n}"
    using n0 by (simp add: int_upto_image)
  from len perm dist set start ReadPerm_loop_step show ?thesis
    by blast
qed

text \<open>
  C6: for \<open>n \<ge> 0\<close> and every reader, a slice that \<open>ReadPerm src n\<close> returns
  has length \<open>n\<close> and holds each integer of \<open>[0, n)\<close> exactly once.  It is
  built by the loop from \<open>i = 0\<close> on a slice of \<open>n\<close> zeros; each iteration,
  for \<open>0 \<le> i < n\<close>, draws \<open>j = ReadIntn(src, i+1)\<close> and then sets
  \<open>m[i] = m[j]\<close> and \<open>m[j] = i\<close>, no index being out of range.
\<close>

theorem ReadPerm_permutation:
  assumes "0 \<le>s n" and "ReadPerm src n = Some (Inr m, src')"
  shows "length m = nat (sint n)
    \<and> mset (map sint m) = mset (map int [0..<nat (sint n)])
    \<and> distinct m \<and> sint ` set m = {0..<sint n}
    \<and> ReadPerm src n = ReadPerm_loop src n 0 (replicate (nat (sint n)) 0)
    \<and> (\<forall>s i a. 0 \<le> sint i \<longrightarrow> i <s n \<longrightarrow> length a = nat (sint n) \<longrightarrow>
          ReadPerm_loop s n i a =
            (case ReadIntn s (i + 1) of
               None \<Rightarrow> None
             | Some (Inl p, s') \<Rightarrow> Some (Inl p, s')
             | Some (Inr j, s') \<Rightarrow>
                 ReadPerm_loop s' n (i + 1) ((a[idx i := a ! idx j])[idx j := i])))"
  using assms by (rule ReadPerm_Inr)

lemma ReadPerm_example:
  "ReadPerm (Some 1 ## Some 4 ## sconst None) 3 = Some (Inr [0, 2, 1], sconst None)"
proof -
  let ?s0 = "Some (1 :: byte) ## Some 4 ## sconst None"
  let ?s1 = "Some (4 :: byte) ## sconst None"
  have l: "le_uint64 (1 # replicate 7 0) = 1" "le_uint64 (4 # replicate 7 0) = 4"
    by (simp_all add: le_uint64_def)
  have r0: "ReadUint64Bits ?s0 8 = (Inr 1, ?s1)"
    by (simp add: ReadUint64Bits_valid l mask_eq_exp_minus_1)
  have r1: "ReadUint64Bits ?s1 8 = (Inr 4, sconst None)"
    by (simp add: ReadUint64Bits_valid l mask_eq_exp_minus_1)
  have b: "ReadIntn ?s0 2 = Some (Inr 1, ?s1)"
    by (simp add: ReadIntn_pow2 minBytes_def word_sle_eq r0)
  have c: "ReadIntn ?s1 3 = Some (Inr 1, sconst None)"
    by (simp add: ReadIntn_general minBytes_def word_sle_eq)
      (simp add: ReadIntn_loop.simps [of ?s1] r1)
  show ?thesis
    by (simp add: ReadPerm_def word_sless_alt ReadIntn_of_one b c in_bounds_def idx_def
        word_sle_eq numeral_2_eq_2 numeral_3_eq_3)
qed

theorem ReadPerm_permutation_witness:
  "(0 :: go_int) \<le>s 3
   \<and> ReadPerm (Some 1 ## Some 4 ## sconst None) 3 = Some (Inr [0, 2, 1], sconst None)
   \<and> length [0, 2, 1 :: go_int] = nat (sint (3 :: go_int))
   \<and> mset (map sint [0, 2, 1 :: go_int]) = mset (map int [0..<nat (sint (3 :: go_int))])
   \<and> distinct [0, 2, 1 :: go_int]"
proof -
  have h: "(0 :: go_int) \<le>s 3"
    by (simp add: word_sle_eq)
  from ReadPerm_permutation [OF h ReadPerm_example] h ReadPerm_example show ?thesis
    by simp
qed

subsection \<open>Samples\<close>

lemma ReadSample_loop_result:
  assumes "ReadSample_loop src n k sample cache = Some y"
  shows "cache = set sample \<longrightarrow> distinct sample \<longrightarrow> int (length sample) \<le> sint k \<longrightarrow>
    (\<forall>x\<in>set sample. 0 \<le> sint x \<and> sint x < sint n) \<longrightarrow>
    (\<forall>xs. fst y = Inr xs \<longrightarrow>
       distinct xs \<and> int (length xs) = sint k \<and> (\<forall>x\<in>set xs. 0 \<le> sint x \<and> sint x < sint n))"
proof (rule ReadSample_loop.raw_induct [where P = "\<lambda>src n k sample cache y.
    cache = set sample \<longrightarrow> distinct sample \<longrightarrow> int (length sample) \<le> sint k \<longrightarrow>
    (\<forall>x\<in>set sample. 0 \<le> sint x \<and> sint x < sint n) \<longrightarrow>
    (\<forall>xs. fst y = Inr xs \<longrightarrow>
       distinct xs \<and> int (length xs) = sint k \<and> (\<forall>x\<in>set xs. 0 \<le> sint x \<and> sint x < sint n))",
    OF _ assms])
  fix f :: "reader \<Rightarrow> go_int \<Rightarrow> go_int \<Rightarrow> go_int list \<Rightarrow> go_int set \<Rightarrow> go_int list outcome option"
    and src n k sample cache y
  assume IH: "\<And>src n k sample cache y. f src n k sample cache = Some y \<Longrightarrow>
      cache = set sample \<longrightarrow> distinct sample \<longrightarrow> int (length sample) \<le> sint k \<longrightarrow>
      (\<forall>x\<in>set sample. 0 \<le> sint x \<and> sint x < sint n) \<longrightarrow>
      (\<forall>xs. fst y = Inr xs \<longrightarrow>
         distinct xs \<and> int (length xs) = sint k \<and> (\<forall>x\<in>set xs. 0 \<le> sint x \<and> sint x < sint n))"
    and body: "(if int (length sample) < sint k then
        (case ReadIntn src n of
           None \<Rightarrow> None
         | Some (Inl p, src') \<Rightarrow> Some (Inl p, src')
         | Some (Inr r, src') \<Rightarrow>
             if r \<in> cache then f src' n k sample cache
             else f src' n k (sample @ [r]) (insert r cache))
      else Some (Inr sample, src)) = Some y"
  show "cache = set sample \<longrightarrow> distinct sample \<longrightarrow> int (length sample) \<le> sint k \<longrightarrow>
    (\<forall>x\<in>set sample. 0 \<le> sint x \<and> sint x < sint n) \<longrightarrow>
    (\<forall>xs. fst y = Inr xs \<longrightarrow>
       distinct xs \<and> int (length xs) = sint k \<and> (\<forall>x\<in>set xs. 0 \<le> sint x \<and> sint x < sint n))"
  proof (intro impI allI)
    fix xs
    assume c: "cache = set sample" and d: "distinct sample"
      and l: "int (length sample) \<le> sint k"
      and r: "\<forall>x\<in>set sample. 0 \<le> sint x \<and> sint x < sint n"
      and y: "fst y = Inr xs"
    show "distinct xs \<and> int (length xs) = sint k \<and> (\<forall>x\<in>set xs. 0 \<le> sint x \<and> sint x < sint n)"
    proof (cases "int (length sample) < sint k")
      case False
      with body y have "xs = sample" by auto
      with False d l r show ?thesis by simp
    next
      case True
      with body y obtain v s where rd: "ReadIntn src n = Some (Inr v, s)"
        and rest: "(if v \<in> cache then f s n k sample cache
             else f s n k (sample @ [v]) (insert v cache)) = Some y"
        by (auto split: option.splits prod.splits sum.splits)
      have pos: "0 <s n"
      proof (rule ccontr)
        assume "\<not> 0 <s n"
        then have "n \<le>s 0" by (simp add: signed.not_less)
        from ReadIntn_invalid [OF this, of src] rd show False by simp
      qed
      from ReadIntn_Inr_bounds [OF pos rd] have v: "0 \<le> sint v \<and> sint v < sint n"
        by simp
      show ?thesis
      proof (cases "v \<in> cache")
        case True
        with rest have "f s n k sample cache = Some y" by simp
        from IH [OF this] c d l r y show ?thesis by blast
      next
        case False
        with rest have "f s n k (sample @ [v]) (insert v cache) = Some y" by simp
        moreover have "insert v cache = set (sample @ [v])"
          using c by simp
        moreover have "distinct (sample @ [v])"
          using d c False by simp
        moreover have "int (length (sample @ [v])) \<le> sint k"
          using True by simp
        moreover have "\<forall>x\<in>set (sample @ [v]). 0 \<le> sint x \<and> sint x < sint n"
          using r v by simp
        ultimately show ?thesis
          using IH y by blast
      qed
    qed
  qed
qed

lemma go_div_two:
  fixes n :: go_int
  assumes "0 \<le> sint n"
  shows "sint (go_div n 2) = sint n div 2"
proof -
  have "sint n < 2 ^ 63"
    using sint_lt [of n] by simp
  with assms have "0 \<le> sint n div 2" "sint n div 2 < 2 ^ 63"
    by simp_all
  then have "- (2 ^ 63) \<le> sint n div 2" "sint n div 2 < 2 ^ 63"
    by simp_all
  then have "signed_take_bit 63 (sint n div 2) = sint n div 2"
    by (intro signed_take_bit_int_eq_self)
  moreover have "sint n sdiv 2 = sint n div 2"
    using assms by (simp add: signed_divide_int_def sgn_if abs_if)
  ultimately show ?thesis
    by (simp add: go_div_def sint_sbintrunc')
qed

text \<open>
  C7: for \<open>n \<ge> 0\<close> and \<open>k \<ge> 0\<close>, a slice that \<open>ReadSample src n k\<close> returns
  has exactly \<open>min(k, n)\<close> elements, pairwise distinct, each in \<open>[0, n)\<close>.
  For \<open>k > n\<close> it has \<open>n\<close> elements: all of \<open>[0, n)\<close>.
\<close>

theorem ReadSample_distinct:
  assumes "0 \<le>s n" and "0 \<le>s k" and "ReadSample src n k = Some (Inr xs, src')"
  shows "int (length xs) = min (sint k) (sint n)
    \<and> distinct xs
    \<and> (\<forall>x\<in>set xs. 0 \<le> sint x \<and> sint x < sint n)
    \<and> (n <s k \<longrightarrow> length xs = nat (sint n) \<and> sint ` set xs = {0..<sint n})"
proof -
  from assms(1,2) have n0: "0 \<le> sint n" and k0: "0 \<le> sint k"
    by (simp_all add: word_sle_eq)
  define c where "c = (if n <s k then n else k)"
  have c: "sint c = min (sint k) (sint n)"
    by (simp add: c_def word_sless_alt)
  with n0 k0 have c0: "0 \<le> sint c" and cn: "sint c \<le> sint n"
    by simp_all
  have full: "c = n" if "n <s k"
    using that by (simp add: c_def)
  show ?thesis
  proof (cases "go_div n 2 <s c")
    case True
    have ok: "0 \<le>s c" 
      using c0 by (simp add: word_sle_eq)
    from assms(3) True obtain m s where rd: "ReadPerm src n = Some (Inr m, s)"
      and "(if 0 \<le>s c \<and> sint c \<le> int (length m)
            then Some (Inr (take (nat (sint c)) m), s)
            else Some (Inl (RuntimeError ''slice bounds out of range''), s)) = Some (Inr xs, src')"
      unfolding ReadSample_def Let_def c_def [symmetric]
      by (auto split: option.splits prod.splits sum.splits if_splits)
    then have xs: "xs = take (nat (sint c)) m"
      by (auto split: if_splits)
    from ReadPerm_Inr [OF assms(1) rd] have len: "length m = nat (sint n)"
      and dist: "distinct m" and set: "sint ` set m = {0..<sint n}"
      by simp_all
    have "int (length xs) = sint c"
      unfolding xs using len c0 cn by simp
    moreover have "distinct xs"
      unfolding xs using dist by simp
    moreover have "\<forall>x\<in>set xs. 0 \<le> sint x \<and> sint x < sint n"
    proof
      fix x assume "x \<in> set xs"
      then have "x \<in> set m"
        unfolding xs by (rule in_set_takeD)
      then have "sint x \<in> {0..<sint n}"
        using set by blast
      then show "0 \<le> sint x \<and> sint x < sint n" by simp
    qed
    moreover have "length xs = nat (sint n) \<and> sint ` set xs = {0..<sint n}" if "n <s k"
    proof -
      from full [OF that] len have "xs = m"
        unfolding xs by simp
      with len set show ?thesis by simp
    qed
    ultimately show ?thesis
      using c by simp
  next
    case False
    have "\<not> c <s 0"
      using c0 by (simp add: word_sless_alt)
    with assms(3) False have run: "ReadSample_loop src n c [] {} = Some (Inr xs, src')"
      unfolding ReadSample_def Let_def c_def [symmetric] by simp
    from ReadSample_loop_result [OF run] c0
    have res: "distinct xs" "int (length xs) = sint c"
      "\<forall>x\<in>set xs. 0 \<le> sint x \<and> sint x < sint n"
      by simp_all
    have "length xs = nat (sint n) \<and> sint ` set xs = {0..<sint n}" if "n <s k"
    proof -
      from False full [OF that] have "\<not> sint n div 2 < sint n"
        by (simp add: word_sless_alt go_div_two [OF n0])
      with n0 have "sint n = 0"
        by linarith
      with res(2) full [OF that] show ?thesis
        by simp
    qed
    with res c show ?thesis
      by simp
  qed
qed

theorem ReadSample_distinct_witness:
  "(0 :: go_int) \<le>s 3 \<and> (0 :: go_int) \<le>s 5 \<and> (3 :: go_int) <s 5
   \<and> ReadSample (Some 1 ## Some 4 ## sconst None) 3 5 = Some (Inr [0, 2, 1], sconst None)
   \<and> int (length [0, 2, 1 :: go_int]) = min (sint (5 :: go_int)) (sint (3 :: go_int))
   \<and> distinct [0, 2, 1 :: go_int]
   \<and> sint ` set [0, 2, 1 :: go_int] = {0..<sint (3 :: go_int)}
   \<and> (0 :: go_int) \<le>s 4 \<and> (0 :: go_int) \<le>s 1
   \<and> ReadSample (Some 6 ## sconst None) 4 1 = Some (Inr [2], sconst None)
   \<and> int (length [2 :: go_int]) = min (sint (1 :: go_int)) (sint (4 :: go_int))"
proof -
  let ?s0 = "Some (1 :: byte) ## Some 4 ## sconst None"
  let ?s1 = "Some (6 :: byte) ## sconst None"
  have h: "(0 :: go_int) \<le>s 3" "(0 :: go_int) \<le>s 5" "(3 :: go_int) <s 5"
    "(0 :: go_int) \<le>s 4" "(0 :: go_int) \<le>s 1"
    by (simp_all add: word_sle_eq word_sless_alt)
  have d: "go_div 3 2 = 1" "go_div 4 2 = 2"
    by (simp_all add: go_div_def signed_divide_int_def)
  have a: "ReadSample ?s0 3 5 = Some (Inr [0, 2, 1], sconst None)"
    by (simp add: ReadSample_def d word_sless_alt word_sle_eq ReadPerm_example)
  have l: "le_uint64 (6 # replicate 7 0) = 6"
    by (simp add: le_uint64_def)
  have r: "ReadUint64Bits ?s1 8 = (Inr 6, sconst None)"
    by (simp add: ReadUint64Bits_valid l mask_eq_exp_minus_1)
  have i: "ReadIntn ?s1 4 = Some (Inr 2, sconst None)"
    by (simp add: ReadIntn_pow2 minBytes_def word_sle_eq r)
  have "ReadSample_loop (sconst None) 4 1 [2] {2} = Some (Inr [2], sconst None)"
    by (subst ReadSample_loop.simps) simp
  then have "ReadSample_loop ?s1 4 1 [] {} = Some (Inr [2], sconst None)"
    by (subst ReadSample_loop.simps) (simp add: i)
  then have b: "ReadSample ?s1 4 1 = Some (Inr [2], sconst None)"
    by (simp add: ReadSample_def d word_sless_alt)
  from ReadSample_distinct [OF h(1,2) a] ReadSample_distinct [OF h(4,5) b] h a b
  show ?thesis by simp
qed

subsection \<open>Floating point numbers in the unit interval\<close>

lemma ulp_exp_le:
  "e \<le> e0 \<Longrightarrow> x < 2 powi (e0 + 53) \<Longrightarrow> ulp_exp k e x \<le> e0"
proof (induction k arbitrary: e)
  case 0
  then show ?case by simp
next
  case (Suc k)
  show ?case
  proof (cases "x < 2 powi (e + 53)")
    case True
    with Suc.prems show ?thesis by simp
  next
    case False
    have "e \<noteq> e0"
      using False Suc.prems(2) by auto
    with Suc.prems(1) have "e + 1 \<le> e0" by simp
    from Suc.IH [OF this Suc.prems(2)] False show ?thesis by simp
  qed
qed

lemma ulp_exp_ge: "e \<le> ulp_exp k e x"
proof (induction k arbitrary: e)
  case 0
  then show ?case by simp
next
  case (Suc k)
  from Suc [of "e + 1"] show ?case by simp
qed

lemma round_half_even_int: "round_half_even (of_int z) = z"
  by (simp add: round_half_even_def)

lemma round_float64_exact:
  assumes "- 1074 \<le> e0" and "x = of_int z * 2 powi e0" and "x < 2 powi (e0 + 53)"
  shows "round_float64 x = x"
proof -
  define e where "e = ulp_exp 2045 (- 1074) x"
  have "e \<le> e0"
    unfolding e_def using assms(1,3) by (rule ulp_exp_le)
  then obtain d where d: "e0 = e + int d"
    by (metis nonneg_int_cases diff_ge_0_iff_ge add_diff_cancel_left' add.commute
        diff_add_cancel)
  have "x / 2 powi e = of_int z * (2 powi e0 / 2 powi e)"
    unfolding assms(2) by simp
  also have "2 powi e0 / 2 powi e = (2 :: rat) ^ d"
    unfolding d by (simp add: power_int_add)
  also have "of_int z * (2 :: rat) ^ d = of_int (z * 2 ^ d)"
    by simp
  finally have q: "x / 2 powi e = of_int (z * 2 ^ d)" .
  have "round_float64 x = of_int (z * 2 ^ d) * 2 powi e"
    unfolding round_float64_def Let_def e_def [symmetric] q round_half_even_int ..
  also have "\<dots> = of_int z * (2 ^ d * 2 powi e)"
    by simp
  also have "2 ^ d * 2 powi e = (2 :: rat) powi e0"
    unfolding d by (simp add: power_int_add)
  finally show ?thesis
    unfolding assms(2) .
qed

lemma rat_of_nat_less_two_power_53:
  "n < 2 ^ 53 \<Longrightarrow> (of_nat n :: rat) < 2 ^ 53"
proof -
  assume "n < 2 ^ 53"
  then have "(of_nat n :: rat) < of_nat (2 ^ 53)"
    by (simp only: of_nat_less_iff)
  then show ?thesis by simp
qed

lemma round_float64_nat:
  assumes "n < 2 ^ 53"
  shows "round_float64 (of_nat n) = of_nat n"
proof (rule round_float64_exact [where ?e0.0 = 0 and z = "int n"])
  show "- 1074 \<le> (0 :: int)" by simp
  show "(of_nat n :: rat) = of_int (int n) * 2 powi 0" by simp
  show "(of_nat n :: rat) < 2 powi (0 + 53)"
    using rat_of_nat_less_two_power_53 [OF assms] by simp
qed

lemma float64_two_power_53: "round_float64 (2 ^ 53) = 2 ^ 53"
proof (rule round_float64_exact [where ?e0.0 = 1 and z = "2 ^ 52"])
  show "- 1074 \<le> (1 :: int)" by simp
  show "(2 ^ 53 :: rat) = of_int (2 ^ 52) * 2 powi 1" by simp
  show "(2 ^ 53 :: rat) < 2 powi (1 + 53)" by simp
qed

lemma round_float64_fraction:
  assumes "n < 2 ^ 53"
  shows "round_float64 (of_nat n / 2 ^ 53) = of_nat n / 2 ^ 53"
proof (rule round_float64_exact [where ?e0.0 = "- 53" and z = "int n"])
  show "- 1074 \<le> (- 53 :: int)" by simp
  have "(2 :: rat) powi (- 53) = 1 / 2 ^ 53"
    by (simp add: power_int_minus inverse_eq_divide)
  then show "(of_nat n :: rat) / 2 ^ 53 = of_int (int n) * 2 powi (- 53)"
    by simp
  have "(of_nat n :: rat) / 2 ^ 53 < 1"
    using rat_of_nat_less_two_power_53 [OF assms] by simp
  then show "(of_nat n :: rat) / 2 ^ 53 < 2 powi (- 53 + 53)"
    by simp
qed

lemma read_53_bits_below:
  assumes "ReadUint64Bits src 53 = (Inr r, src')"
  shows "unat r < 2 ^ 53"
proof -
  from ReadUint64Bits_Inr(3) [OF assms] obtain y where "r = y AND mask 53"
    by auto
  then have "r \<le> mask 53"
    by (simp add: word_and_le1)
  then have "unat r \<le> unat (mask 53 :: uint64)"
    by (simp add: word_le_nat_alt)
  also have "unat (mask 53 :: uint64) < 2 ^ 53"
    by (simp add: mask_eq_exp_minus_1)
  finally show ?thesis .
qed

lemma ReadFloat64_eq:
  "ReadFloat64 src =
     (case ReadUint64Bits src 53 of
        (Inl p, src') \<Rightarrow> (Inl p, src')
      | (Inr r, src') \<Rightarrow> (Inr (of_nat (unat r) / 2 ^ 53), src'))"
proof (cases "ReadUint64Bits src 53")
  case (Pair res src')
  show ?thesis
  proof (cases res)
    case (Inl p)
    with Pair show ?thesis by (simp add: ReadFloat64_def)
  next
    case (Inr r)
    with Pair have r: "unat r < 2 ^ 53"
      by (auto dest: read_53_bits_below)
    have "float64_div (float64_of_uint64 r) (round_float64 (2 ^ 53)) =
        of_nat (unat r) / 2 ^ 53"
      unfolding float64_div_def float64_of_uint64_def float64_two_power_53
        round_float64_nat [OF r] round_float64_fraction [OF r] ..
    with Pair Inr show ?thesis
      by (simp only: ReadFloat64_def prod.case sum.case)
  qed
qed

text \<open>
  C9: a number that \<open>ReadFloat64 src\<close> returns is the 53-bit integer read by
  \<open>ReadUint64Bits src 53\<close> divided by \<open>2 ^ 53\<close>, exactly: both the conversion
  and the division are exact in \<open>float64\<close>.  It is not negative and it is
  less than 1.
\<close>

theorem ReadFloat64_unit_interval:
  assumes "ReadFloat64 src = (Inr x, src')"
  shows "\<exists>r. ReadUint64Bits src 53 = (Inr r, src') \<and> unat r < 2 ^ 53
    \<and> x = of_nat (unat r) / 2 ^ 53 \<and> 0 \<le> x \<and> x < 1"
proof -
  from assms obtain r where rd: "ReadUint64Bits src 53 = (Inr r, src')"
    and x: "x = of_nat (unat r) / 2 ^ 53"
    unfolding ReadFloat64_eq by (auto split: prod.splits sum.splits)
  note r = read_53_bits_below [OF rd]
  have "(of_nat (unat r) :: rat) / 2 ^ 53 < 1"
    using rat_of_nat_less_two_power_53 [OF r] by (simp del: of_nat_unat)
  moreover have "0 \<le> (of_nat (unat r) :: rat) / 2 ^ 53"
    by (simp del: of_nat_unat)
  ultimately show ?thesis
    using rd r x by blast
qed

theorem ReadFloat64_unit_interval_witness:
  "ReadFloat64 (sconst (Some 0xff)) =
     (Inr (9007199254740991 / 9007199254740992), sconst (Some 0xff))
   \<and> ReadUint64Bits (sconst (Some 0xff)) 53 = (Inr 9007199254740991, sconst (Some 0xff))
   \<and> (0 :: rat) \<le> 9007199254740991 / 9007199254740992
   \<and> (9007199254740991 / 9007199254740992 :: rat) < 1"
proof -
  let ?src = "sconst (Some (0xff :: byte))"
  have l: "le_uint64 (replicate 7 0xff @ [0]) = 0xffffffffffffff"
    by (simp add: le_uint64_def nth_append)
  have r: "ReadUint64Bits ?src 53 = (Inr 9007199254740991, ?src)"
    by (simp add: ReadUint64Bits_valid ReadFull_sconst l mask_eq_exp_minus_1)
  have e: "ReadFloat64 ?src = (Inr (9007199254740991 / 9007199254740992), ?src)"
    by (simp add: ReadFloat64_eq r)
  from ReadFloat64_unit_interval [OF e] r e show ?thesis
    by simp
qed

end
